theory Spec2Isabelle
  imports Complex_Main "HOL-Library.Word"
begin

unbundle bit_operations_syntax

section \<open>State codec (read-round.js, ev-picks.js)\<close>

text \<open>
  Account data is a byte buffer. \<open>u64\<close> fields are read with
  \<open>DataView.getBigUint64(offset, true)\<close>, which throws a \<open>RangeError\<close> when the
  eight bytes do not lie inside the view. Every throw of the source is a value \<open>Inl e\<close>.
\<close>

type_synonym u8 = "8 word"
type_synonym u64 = "64 word"

datatype js_error =
    JsError string    \<comment> \<open>\<open>throw new Error(msg)\<close>\<close>
  | RangeError        \<comment> \<open>out-of-bounds \<open>DataView\<close> read, \<open>BigInt\<close> division by zero\<close>

definition bind_err :: "js_error + 'a \<Rightarrow> ('a \<Rightarrow> js_error + 'b) \<Rightarrow> js_error + 'b" where
  "bind_err m f = (case m of Inl e \<Rightarrow> Inl e | Inr v \<Rightarrow> f v)"

text \<open>\<open>le64(buf, offset)\<close>: the little-endian 64-bit word at \<open>offset\<close>.\<close>

definition le64 :: "u8 list \<Rightarrow> nat \<Rightarrow> js_error + u64" where
  "le64 buf offset =
     (if offset + 8 \<le> length buf
      then Inr (word_rcat (rev (take 8 (drop offset buf))))
      else Inl RangeError)"

text \<open>The loop \<open>for (let i = 0; i < 25; i++) { xs.push(le64(data, o)); o += 8; }\<close>,
  with the number of remaining iterations as the recursion argument.\<close>

fun read_u64s :: "u8 list \<Rightarrow> nat \<Rightarrow> nat \<Rightarrow> js_error + u64 list" where
  "read_u64s data off 0 = Inr []"
| "read_u64s data off (Suc n) =
     bind_err (le64 data off) (\<lambda>v.
     bind_err (read_u64s data (off + 8) n) (\<lambda>vs. Inr (v # vs)))"

text \<open>\<open>buf.subarray(a, b)\<close> clamps to the buffer and never throws.\<close>

definition subarray :: "u8 list \<Rightarrow> nat \<Rightarrow> nat \<Rightarrow> u8 list" where
  "subarray buf a b = take (b - a) (drop a buf)"

text \<open>\<open>new PublicKey(bytes)\<close> of @solana/web3.js keeps the bytes and rejects an input of
  more than 32 bytes.\<close>

datatype PublicKey = PublicKey "u8 list"

definition newPublicKey :: "u8 list \<Rightarrow> js_error + PublicKey" where
  "newPublicKey bs =
     (if 32 < length bs then Inl (JsError ''Invalid public key input'')
      else Inr (PublicKey bs))"

record RoundState =
  id_f :: u64
  deployed :: "u64 list"
  slot_hash :: "u8 list"
  count :: "u64 list"
  expires_at :: u64
  motherlode :: u64
  rent_payer :: PublicKey
  top_miner :: PublicKey
  top_miner_reward :: u64
  total_deployed :: u64
  total_vaulted :: u64
  total_winnings :: u64

text \<open>\<open>decodeRound\<close> of read-round.js. The running offset \<open>o\<close> of the source is
  written out at each read; the field \<open>id\<close> is \<open>id_f\<close> here.\<close>

definition decodeRound :: "u8 list \<Rightarrow> js_error + RoundState" where
  "decodeRound accData =
     (if length accData < 8 then Inl (JsError ''Round data too short'')
      else
        let data = drop 8 accData in
        bind_err (le64 data 0) (\<lambda>id'.
        bind_err (read_u64s data 8 25) (\<lambda>deployed'.
        let slot_hash' = subarray data 208 (208 + 32) in
        bind_err (read_u64s data 240 25) (\<lambda>count'.
        bind_err (le64 data 440) (\<lambda>expires_at'.
        bind_err (le64 data 448) (\<lambda>motherlode'.
        bind_err (newPublicKey (subarray data 456 (456 + 32))) (\<lambda>rent_payer'.
        bind_err (newPublicKey (subarray data 488 (488 + 32))) (\<lambda>top_miner'.
        bind_err (le64 data 520) (\<lambda>top_miner_reward'.
        bind_err (le64 data 528) (\<lambda>total_deployed'.
        bind_err (le64 data 536) (\<lambda>total_vaulted'.
        bind_err (le64 data 544) (\<lambda>total_winnings'.
        Inr \<lparr> id_f = id', deployed = deployed', slot_hash = slot_hash', count = count',
              expires_at = expires_at', motherlode = motherlode',
              rent_payer = rent_payer', top_miner = top_miner',
              top_miner_reward = top_miner_reward', total_deployed = total_deployed',
              total_vaulted = total_vaulted', total_winnings = total_winnings' \<rparr>
        ))))))))))))"

text \<open>\<open>decodeRound\<close> of ev-picks.js: no length check of its own, the same reads in the
  same order, and only four fields returned.\<close>

record RoundPick =
  pick_id :: u64
  pick_deployed :: "u64 list"
  pick_count :: "u64 list"
  pick_total_deployed :: u64

definition decodeRound_ev :: "u8 list \<Rightarrow> js_error + RoundPick" where
  "decodeRound_ev accData =
     (let data = drop 8 accData in
      bind_err (le64 data 0) (\<lambda>id'.
      bind_err (read_u64s data 8 25) (\<lambda>deployed'.
      let slot_hash' = subarray data 208 (208 + 32) in
      bind_err (read_u64s data 240 25) (\<lambda>count'.
      bind_err (le64 data 440) (\<lambda>expires_at'.
      bind_err (le64 data 448) (\<lambda>motherlode'.
      bind_err (newPublicKey (subarray data 456 (456 + 32))) (\<lambda>rent_payer'.
      bind_err (newPublicKey (subarray data 488 (488 + 32))) (\<lambda>top_miner'.
      bind_err (le64 data 520) (\<lambda>top_miner_reward'.
      bind_err (le64 data 528) (\<lambda>total_deployed'.
      bind_err (le64 data 536) (\<lambda>total_vaulted'.
      bind_err (le64 data 544) (\<lambda>total_winnings'.
      Inr \<lparr> pick_id = id', pick_deployed = deployed', pick_count = count',
            pick_total_deployed = total_deployed' \<rparr>
      ))))))))))))"

text \<open>\<open>isAll(buf, value)\<close>: the loop returns false at the first byte that differs.\<close>

fun isAll :: "u8 list \<Rightarrow> u8 \<Rightarrow> bool" where
  "isAll [] v = True"
| "isAll (b # bs) v = (if b \<noteq> v then False else isAll bs v)"

text \<open>The tagged result of \<open>winningSquareFromSlotHash\<close>:
  \<open>{status: 'unavailable'}\<close>, \<open>{status: 'refund'}\<close>, \<open>{status: 'ok', index}\<close>.\<close>

datatype winning_square = Unavailable | Refund | Ok nat

definition winningSquareFromSlotHash :: "u8 list \<Rightarrow> js_error + winning_square" where
  "winningSquareFromSlotHash slotHashBuf =
     (if length slotHashBuf \<noteq> 32 then Inr Unavailable
      else if isAll slotHashBuf 0x00 then Inr Unavailable
      else if isAll slotHashBuf 0xff then Inr Refund
      else
        bind_err (le64 slotHashBuf 0) (\<lambda>r1.
        bind_err (le64 slotHashBuf 8) (\<lambda>r2.
        bind_err (le64 slotHashBuf 16) (\<lambda>r3.
        bind_err (le64 slotHashBuf 24) (\<lambda>r4.
        let r = r1 XOR r2 XOR r3 XOR r4;
            idx = unat (r mod 25)
        in Inr (Ok idx))))))"

text \<open>The spec's reading of a byte sequence as a little-endian number: byte \<open>k\<close> has
  weight \<open>256 ^ k\<close>. \<open>spec_word buf k\<close> is the \<open>k\<close>-th 64-bit word of the buffer.\<close>

fun le_value :: "u8 list \<Rightarrow> nat" where
  "le_value [] = 0"
| "le_value (b # bs) = unat b + 256 * le_value bs"

definition spec_word :: "u8 list \<Rightarrow> nat \<Rightarrow> nat" where
  "spec_word buf k = le_value (take 8 (drop (8 * k) buf))"

section \<open>Expected value of a square (ev-picks.js)\<close>

text \<open>All quantities are \<open>BigInt\<close>s, hence unbounded integers. \<open>BigInt\<close> division
  truncates towards zero and throws a \<open>RangeError\<close> on a zero divisor.\<close>

definition bigint_div :: "int \<Rightarrow> int \<Rightarrow> js_error + int" where
  "bigint_div x y =
     (if y = 0 then Inl RangeError
      else Inr (if (x < 0) = (y < 0) then \<bar>x\<bar> div \<bar>y\<bar> else - (\<bar>x\<bar> div \<bar>y\<bar>)))"

record ev_result =
  S_win :: int
  EV :: int

text \<open>\<open>evForSquare(deployed, total, aLamports)\<close>; the parameters \<open>deployed\<close> (one
  square's amount) and \<open>total\<close> are written \<open>deployed_i\<close> and \<open>total_d\<close>.\<close>

definition evForSquare :: "int \<Rightarrow> int \<Rightarrow> int \<Rightarrow> js_error + ev_result" where
  "evForSquare deployed_i total_d aLamports =
     (let N = 25;
          a = aLamports;
          totalNew = total_d + a;
          depNew = deployed_i + a
      in bind_err (bigint_div (a * 99) 100) (\<lambda>base.
         let pot = totalNew - depNew;
             shareNumer = pot * a * 891
         in bind_err (bigint_div shareNumer (depNew * 1000)) (\<lambda>share.
            let S_win' = base + share
            in bind_err (bigint_div S_win' N) (\<lambda>q.
               let EV' = (- a) + q
               in Inr \<lparr> S_win = S_win', EV = EV' \<rparr>))))"

text \<open>The spec's formulas, over the reals with explicit floors.\<close>

definition spec_S_win :: "int \<Rightarrow> int \<Rightarrow> int \<Rightarrow> int" where
  "spec_S_win d_i T a =
     (let totalNew = T + a; depNew = d_i + a
      in \<lfloor>0.99 * real_of_int a\<rfloor>
         + \<lfloor>real_of_int (totalNew - depNew) * real_of_int a * 0.891 / real_of_int depNew\<rfloor>)"

definition spec_EV :: "int \<Rightarrow> int \<Rightarrow> int \<Rightarrow> int" where
  "spec_EV d_i T a = - a + \<lfloor>real_of_int (spec_S_win d_i T a) / 25\<rfloor>"

section \<open>Posterior estimator and ranker (smart picks script)\<close>

subsection \<open>Numbers\<close>

text \<open>
  JavaScript numbers are idealised: a finite double is an exact real (rounding, overflow
  and underflow are not modelled), next to \<open>Infinity\<close>, \<open>-Infinity\<close> and \<open>NaN\<close>.
  Both zeros are the real 0 and count as \<open>+0\<close>; the only divisor of the script that can
  be zero with a nonzero dividend is \<open>N * alpha + sumW\<close>, whose second summand is never
  \<open>-0\<close>.
\<close>

datatype jsnum = Fin real | PInf | NInf | NaN

fun jadd :: "jsnum \<Rightarrow> jsnum \<Rightarrow> jsnum" where
  "jadd NaN y = NaN"
| "jadd x NaN = NaN"
| "jadd (Fin a) (Fin b) = Fin (a + b)"
| "jadd PInf NInf = NaN"
| "jadd NInf PInf = NaN"
| "jadd PInf y = PInf"
| "jadd x PInf = PInf"
| "jadd NInf y = NInf"
| "jadd x NInf = NInf"

fun jmul :: "jsnum \<Rightarrow> jsnum \<Rightarrow> jsnum" where
  "jmul NaN y = NaN"
| "jmul x NaN = NaN"
| "jmul (Fin a) (Fin b) = Fin (a * b)"
| "jmul PInf (Fin b) = (if b = 0 then NaN else if 0 < b then PInf else NInf)"
| "jmul NInf (Fin b) = (if b = 0 then NaN else if 0 < b then NInf else PInf)"
| "jmul (Fin a) PInf = (if a = 0 then NaN else if 0 < a then PInf else NInf)"
| "jmul (Fin a) NInf = (if a = 0 then NaN else if 0 < a then NInf else PInf)"
| "jmul PInf PInf = PInf"
| "jmul NInf NInf = PInf"
| "jmul PInf NInf = NInf"
| "jmul NInf PInf = NInf"

fun jdiv :: "jsnum \<Rightarrow> jsnum \<Rightarrow> jsnum" where
  "jdiv NaN y = NaN"
| "jdiv x NaN = NaN"
| "jdiv (Fin a) (Fin b) =
     (if b \<noteq> 0 then Fin (a / b)
      else if 0 < a then PInf else if a < 0 then NInf else NaN)"
| "jdiv (Fin a) PInf = Fin 0"
| "jdiv (Fin a) NInf = Fin 0"
| "jdiv PInf (Fin b) = (if 0 \<le> b then PInf else NInf)"
| "jdiv NInf (Fin b) = (if 0 \<le> b then NInf else PInf)"
| "jdiv PInf y = NaN"
| "jdiv NInf y = NaN"

text \<open>\<open>Math.pow(2, x)\<close>.\<close>

fun pow2 :: "jsnum \<Rightarrow> jsnum" where
  "pow2 (Fin x) = Fin (2 powr x)"
| "pow2 PInf = PInf"
| "pow2 NInf = Fin 0"
| "pow2 NaN = NaN"

text \<open>\<open>x > y\<close>: false whenever an operand is \<open>NaN\<close>.\<close>

fun jgt :: "jsnum \<Rightarrow> jsnum \<Rightarrow> bool" where
  "jgt NaN y = False"
| "jgt x NaN = False"
| "jgt (Fin a) (Fin b) = (b < a)"
| "jgt PInf PInf = False"
| "jgt PInf y = True"
| "jgt x PInf = False"
| "jgt NInf y = False"
| "jgt x NInf = True"

text \<open>\<open>xs.reduce((s, x) => s + x, 0)\<close> on an array without holes.\<close>

definition jsum :: "jsnum list \<Rightarrow> jsnum" where
  "jsum xs = foldl jadd (Fin 0) xs"

subsection \<open>Arrays and history records\<close>

text \<open>
  The value of a \<open>blockNumber\<close> field matters to the script only through
  \<open>Number.isInteger\<close> and, when that holds, as an index: it is either an integer or
  something that is not one (a fraction, a string, \<open>undefined\<close>, a missing record).
  The record field \<open>round\<close> is \<open>round_no\<close> here, and the local \<open>sorted\<close> is
  \<open>sorted_w\<close>.
\<close>

datatype js_index = IntIdx int | NotInt

record WinnerRecord =
  round_no :: int
  blockNumber :: js_index

text \<open>An array slot is a value or a hole; \<open>reduce\<close> and \<open>map\<close> skip holes.\<close>

datatype slot = Hole | Val jsnum

text \<open>\<open>options.x ?? default\<close>.\<close>

record options =
  alpha :: "real option"
  halfLife :: "real option"
  maxRounds :: "int option"

definition nullish :: "'a option \<Rightarrow> 'a \<Rightarrow> 'a" where
  "nullish v d = (case v of None \<Rightarrow> d | Some x \<Rightarrow> x)"

text \<open>\<open>xs.slice(0, n)\<close>: a negative \<open>n\<close> counts from the end.\<close>

definition slice0 :: "'a list \<Rightarrow> int \<Rightarrow> 'a list" where
  "slice0 xs n = (if n < 0 then take (nat (int (length xs) + n)) xs else take (nat n) xs)"

text \<open>\<open>[...winners].sort((a, b) => b.round - a.round)\<close>: the sort is stable, so the
  result is the stable arrangement by descending round.\<close>

definition sortByRoundDesc :: "WinnerRecord list \<Rightarrow> WinnerRecord list" where
  "sortByRoundDesc winners = sort_key (\<lambda>w. - round_no w) winners"

text \<open>\<open>sorted.map((_, i) => Math.pow(2, -i / halfLife))\<close>.\<close>

definition weights :: "WinnerRecord list \<Rightarrow> real \<Rightarrow> jsnum list" where
  "weights sorted_w h =
     map (\<lambda>i. pow2 (jdiv (Fin (- real i)) (Fin h))) [0..<length sorted_w]"

text \<open>The counting loop: one step adds the weight to the square's count when the index
  is an integer in range, and does nothing otherwise.\<close>

definition N_squares :: nat where
  "N_squares = 25"

fun count_step :: "jsnum list \<Rightarrow> js_index \<times> jsnum \<Rightarrow> jsnum list" where
  "count_step counts (NotInt, w) = counts"
| "count_step counts (IntIdx idx0, w) =
     (if 0 \<le> idx0 \<and> idx0 < int N_squares
      then counts[nat idx0 := jadd (counts ! nat idx0) w]
      else counts)"

fun count_loop :: "jsnum list \<Rightarrow> (js_index \<times> jsnum) list \<Rightarrow> jsnum list" where
  "count_loop counts [] = counts"
| "count_loop counts (e # es) = count_loop (count_step counts e) es"

definition countsOf :: "WinnerRecord list \<Rightarrow> real \<Rightarrow> jsnum list" where
  "countsOf sorted_w h =
     count_loop (replicate N_squares (Fin 0)) (zip (map blockNumber sorted_w) (weights sorted_w h))"

text \<open>The posterior mean \<open>(alpha + w) / (N * alpha + sumW)\<close> of every square.\<close>

definition posteriorMean :: "jsnum list \<Rightarrow> real \<Rightarrow> jsnum list" where
  "posteriorMean counts a =
     (let sumW = jsum counts
      in map (\<lambda>w. jdiv (jadd (Fin a) w)
                        (jadd (jmul (Fin (real N_squares)) (Fin a)) sumW)) counts)"

text \<open>
  \<open>if (Number.isInteger(i)) probs[i] *= c\<close>. Reading a hole or past the end gives
  \<open>undefined\<close>, whose product is \<open>NaN\<close>. Writing past the end extends the array with
  holes. An integer that is no array index (negative, or above \<open>2^32 - 2\<close>) names an
  ordinary property and leaves the elements alone.
\<close>

definition readNum :: "slot list \<Rightarrow> nat \<Rightarrow> jsnum" where
  "readNum xs i =
     (if i < length xs then (case xs ! i of Hole \<Rightarrow> NaN | Val v \<Rightarrow> v) else NaN)"

definition writeSlot :: "slot list \<Rightarrow> nat \<Rightarrow> jsnum \<Rightarrow> slot list" where
  "writeSlot xs i v =
     (if i < length xs then xs[i := Val v]
      else xs @ replicate (i - length xs) Hole @ [Val v])"

fun penalize :: "slot list \<Rightarrow> js_index \<Rightarrow> real \<Rightarrow> slot list" where
  "penalize probs NotInt c = probs"
| "penalize probs (IntIdx i) c =
     (if 0 \<le> i \<and> i < 2 ^ 32 - 1
      then writeSlot probs (nat i) (jmul (readNum probs (nat i)) (Fin c))
      else probs)"

text \<open>\<open>sorted[k]?.blockNumber\<close>.\<close>

definition blockNumberAt :: "WinnerRecord list \<Rightarrow> nat \<Rightarrow> js_index" where
  "blockNumberAt sorted_w k = (if k < length sorted_w then blockNumber (sorted_w ! k) else NotInt)"

text \<open>The renormalisation \<open>probs.map((p) => (s > 0 ? p / s : 1 / N))\<close> with
  \<open>s = probs.reduce((a, b) => a + b, 0)\<close>.\<close>

fun present :: "slot list \<Rightarrow> jsnum list" where
  "present [] = []"
| "present (Hole # xs) = present xs"
| "present (Val v # xs) = v # present xs"

fun map_slot :: "(jsnum \<Rightarrow> jsnum) \<Rightarrow> slot \<Rightarrow> slot" where
  "map_slot f Hole = Hole"
| "map_slot f (Val v) = Val (f v)"

definition renormalize :: "slot list \<Rightarrow> slot list" where
  "renormalize probs =
     (let s = jsum (present probs)
      in map (map_slot (\<lambda>x. if jgt s (Fin 0) then jdiv x s
                             else jdiv (Fin 1) (Fin (real N_squares)))) probs)"

definition sortedWindow :: "WinnerRecord list \<Rightarrow> options \<Rightarrow> WinnerRecord list" where
  "sortedWindow winners opts = slice0 (sortByRoundDesc winners) (nullish (maxRounds opts) 30)"

definition dirichletTimeDecayedPriors :: "WinnerRecord list \<Rightarrow> options \<Rightarrow> slot list" where
  "dirichletTimeDecayedPriors winners opts =
     (let alpha' = nullish (alpha opts) 1.0;
          halfLife' = nullish (halfLife opts) 10;
          sorted_w = sortedWindow winners opts;
          counts = countsOf sorted_w halfLife';
          probs = map Val (posteriorMean counts alpha');
          recentIdx0 = blockNumberAt sorted_w 0;
          prevIdx0 = blockNumberAt sorted_w 1;
          probs = penalize probs recentIdx0 0.6;
          probs = penalize probs prevIdx0 0.8
      in renormalize probs)"

subsection \<open>Ranker\<close>

text \<open>\<open>topN(probs, n = 3)\<close> on a vector of finite numbers: the comparator
  \<open>b.p - a.p\<close> orders by descending value, and the stable sort keeps equal values in
  their original (index) order.\<close>

record pick =
  index0 :: nat
  index1 :: nat
  p :: real

definition topN :: "real list \<Rightarrow> int option \<Rightarrow> pick list" where
  "topN probs n =
     (let arr = map (\<lambda>(i, v). \<lparr> index0 = i, index1 = i + 1, p = v \<rparr>) (enumerate 0 probs);
          arr = sort_key (\<lambda>e. - p e) arr
      in slice0 arr (nullish n 3))"

text \<open>The order the ranker is to produce: a higher value first, and of two equal values
  the one with the smaller square index first. \<open>pick_of v i\<close> is the entry for square
  \<open>i\<close>, and \<open>ranking v\<close> the whole sorted array before the final \<open>slice\<close>.\<close>

definition ranks_before :: "pick \<Rightarrow> pick \<Rightarrow> bool" where
  "ranks_before a b \<longleftrightarrow> p b < p a \<or> (p a = p b \<and> index0 a < index0 b)"

definition pick_of :: "real list \<Rightarrow> nat \<Rightarrow> pick" where
  "pick_of v i = \<lparr> index0 = i, index1 = i + 1, p = v ! i \<rparr>"

definition ranking :: "real list \<Rightarrow> pick list" where
  "ranking v = sort_key (\<lambda>e. - p e) (map (pick_of v) [0..<length v])"

subsection \<open>Auxiliary notions for the properties\<close>

text \<open>\<open>options = {}\<close>: every option takes its default.\<close>

definition defaultOptions :: options where
  "defaultOptions = \<lparr> alpha = None, halfLife = None, maxRounds = None \<rparr>"

text \<open>A well-formed history record names a square: its \<open>blockNumber\<close> is an integer in
  \<open>[0, 24]\<close>.\<close>

definition wellFormed :: "WinnerRecord \<Rightarrow> bool" where
  "wellFormed w =
     (case blockNumber w of NotInt \<Rightarrow> False | IntIdx k \<Rightarrow> 0 \<le> k \<and> k < int N_squares)"

text \<open>An index on which the penalty assignment cannot lengthen the 25-element array: no
  integer, an integer below 25 (a negative one names a property), or one above the
  largest array index.\<close>

definition harmless :: "js_index \<Rightarrow> bool" where
  "harmless idx =
     (case idx of NotInt \<Rightarrow> True | IntIdx k \<Rightarrow> k < int N_squares \<or> 2 ^ 32 - 1 \<le> k)"

text \<open>The kind of a number: finite, \<open>Infinity\<close>, \<open>-Infinity\<close> or \<open>NaN\<close>.\<close>

fun jclass :: "jsnum \<Rightarrow> nat" where
  "jclass (Fin x) = 0"
| "jclass PInf = 1"
| "jclass NInf = 2"
| "jclass NaN = 3"

text \<open>A record that keeps its round, hence its place in the window, and contributes
  nothing: the index of a record that names no square is replaced by a non-integer.\<close>

definition neutral :: "WinnerRecord \<Rightarrow> WinnerRecord" where
  "neutral w = (if wellFormed w then w else w\<lparr> blockNumber := NotInt \<rparr>)"


section \<open>Properties of the codec\<close>

lemma isAll_iff: "isAll buf v \<longleftrightarrow> (\<forall>b \<in> set buf. b = v)"
  by (induction buf) auto

lemma read_u64s_eq:
  "read_u64s data off n =
     (if n = 0 \<or> off + 8 * n \<le> length data
      then Inr (map (\<lambda>k. word_rcat (rev (take 8 (drop (off + 8 * k) data)))) [0..<n])
      else Inl RangeError)"
proof (induction n arbitrary: off)
  case 0
  show ?case by simp
next
  case (Suc n)
  have shift: "map (\<lambda>k. word_rcat (rev (take 8 (drop (off + 8 * k) data))) :: u64) [0..<Suc n]
      = word_rcat (rev (take 8 (drop off data)))
        # map (\<lambda>k. word_rcat (rev (take 8 (drop (off + 8 + 8 * k) data)))) [0..<n]"
    by (simp add: upt_conv_Cons map_Suc_upt [symmetric] add.assoc del: upt_Suc)
  show ?case
    unfolding read_u64s.simps Suc.IH shift
    by (auto simp: le64_def bind_err_def)
qed

subsection \<open>Little-endian words\<close>

lemma le_value_bound: "le_value bs < 256 ^ length bs"
proof (induction bs)
  case Nil
  show ?case by simp
next
  case (Cons b bs)
  have "unat b < 256" using unsigned_less [of b] by simp
  then show ?case using Cons by simp
qed

lemma horner_sum_le_value: "horner_sum uint 256 bs = int (le_value bs)"
  by (induction bs) simp_all

lemma unat_word_rcat_rev:
  assumes "length bs = 8"
  shows "unat (word_rcat (rev bs) :: u64) = le_value bs"
proof -
  have "(word_rcat (rev bs) :: u64) = of_nat (le_value bs)"
    by (simp add: word_rcat_def horner_sum_le_value)
  moreover have "le_value bs < 2 ^ 64"
    using le_value_bound [of bs] assms by simp
  ultimately show ?thesis
    by (simp add: unat_of_nat del: of_nat_numeral)
qed

lemma le64_value:
  assumes "off + 8 \<le> length buf"
  shows "\<exists>w. le64 buf off = Inr w \<and> unat w = le_value (take 8 (drop off buf))"
  using assms by (simp add: le64_def unat_word_rcat_rev)

subsection \<open>Winning square\<close>

lemma winningSquare_resolved:
  assumes len: "length buf = 32" and nz: "\<not> isAll buf 0x00" and nf: "\<not> isAll buf 0xff"
  shows "winningSquareFromSlotHash buf =
     Inr (Ok ((spec_word buf 0 XOR spec_word buf 1 XOR spec_word buf 2 XOR spec_word buf 3)
              mod 25))"
proof -
  obtain r1 where r1: "le64 buf 0 = Inr r1" "unat r1 = spec_word buf 0"
    using le64_value [of 0 buf] len by (auto simp: spec_word_def)
  obtain r2 where r2: "le64 buf 8 = Inr r2" "unat r2 = spec_word buf 1"
    using le64_value [of 8 buf] len by (auto simp: spec_word_def)
  obtain r3 where r3: "le64 buf 16 = Inr r3" "unat r3 = spec_word buf 2"
    using le64_value [of 16 buf] len by (auto simp: spec_word_def)
  obtain r4 where r4: "le64 buf 24 = Inr r4" "unat r4 = spec_word buf 3"
    using le64_value [of 24 buf] len by (auto simp: spec_word_def)
  have "unat ((r1 XOR r2 XOR r3 XOR r4) mod 25) =
        (spec_word buf 0 XOR spec_word buf 1 XOR spec_word buf 2 XOR spec_word buf 3) mod 25"
    by (simp add: unat_mod unsigned_xor_eq r1 r2 r3 r4)
  then show ?thesis
    using len nz nf
    by (simp add: winningSquareFromSlotHash_def bind_err_def r1 r2 r3 r4 Let_def)
qed

text \<open>
  C1. A 32-byte slot hash always yields a tagged result and never an exception: all bytes
  zero gives \<open>Unavailable\<close>, all bytes \<open>0xFF\<close> gives \<open>Refund\<close>, and any other buffer
  gives \<open>Ok index\<close>, where \<open>index\<close> is the XOR of the four little-endian 64-bit words
  of the buffer modulo 25; a resolved index is below 25.
\<close>

theorem winningSquareFromSlotHash_tagged:
  assumes "length buf = 32"
  shows "winningSquareFromSlotHash buf =
           Inr (if (\<forall>b \<in> set buf. b = 0x00) then Unavailable
                else if (\<forall>b \<in> set buf. b = 0xff) then Refund
                else Ok ((spec_word buf 0 XOR spec_word buf 1 XOR
                          spec_word buf 2 XOR spec_word buf 3) mod 25))
         \<and> (\<forall>i. winningSquareFromSlotHash buf = Inr (Ok i) \<longrightarrow> i < 25)"
proof -
  have main: "winningSquareFromSlotHash buf =
           Inr (if (\<forall>b \<in> set buf. b = 0x00) then Unavailable
                else if (\<forall>b \<in> set buf. b = 0xff) then Refund
                else Ok ((spec_word buf 0 XOR spec_word buf 1 XOR
                          spec_word buf 2 XOR spec_word buf 3) mod 25))"
  proof (cases "isAll buf 0x00")
    case True
    then show ?thesis
      using assms by (simp add: winningSquareFromSlotHash_def isAll_iff)
  next
    case nz: False
    show ?thesis
    proof (cases "isAll buf 0xff")
      case True
      then show ?thesis
        using assms nz by (simp add: winningSquareFromSlotHash_def isAll_iff)
    next
      case False
      then show ?thesis
        using winningSquare_resolved [OF assms nz False] nz by (simp add: isAll_iff)
    qed
  qed
  moreover have "\<forall>i. winningSquareFromSlotHash buf = Inr (Ok i) \<longrightarrow> i < 25"
    unfolding main by (simp split: if_splits)
  ultimately show ?thesis by blast
qed

theorem winningSquareFromSlotHash_tagged_witness:
  "winningSquareFromSlotHash
     [1,0,0,0,0,0,0,0, 0,0,0,0,0,0,0,0, 0,0,0,0,0,0,0,0, 0,0,0,0,0,0,0,0] = Inr (Ok 1)"
  using winningSquareFromSlotHash_tagged
    [of "[1,0,0,0,0,0,0,0, 0,0,0,0,0,0,0,0, 0,0,0,0,0,0,0,0, 0,0,0,0,0,0,0,0]"]
  by (simp add: spec_word_def)

subsection \<open>Length requirements of \<open>decodeRound\<close>\<close>

text \<open>The reads reach offset 552 of the data behind the 8-byte discriminator, so a
  buffer decodes exactly when it has at least 560 bytes.\<close>

lemma decodeRound_short:
  "length buf < 8 \<Longrightarrow> decodeRound buf = Inl (JsError ''Round data too short'')"
  by (simp add: decodeRound_def)

lemma decodeRound_truncated:
  assumes "8 \<le> length buf" "length buf < 560"
  shows "decodeRound buf = Inl RangeError"
  using assms
  by (simp add: decodeRound_def read_u64s_eq le64_def bind_err_def newPublicKey_def
        subarray_def Let_def)

lemma decodeRound_full:
  assumes "560 \<le> length buf"
  shows "\<exists>r. decodeRound buf = Inr r"
  using assms
  by (simp add: decodeRound_def read_u64s_eq le64_def bind_err_def newPublicKey_def
        subarray_def Let_def)

lemma decodeRound_ev_truncated:
  assumes "length buf < 560"
  shows "decodeRound_ev buf = Inl RangeError"
  using assms
  by (simp add: decodeRound_ev_def read_u64s_eq le64_def bind_err_def newPublicKey_def
        subarray_def Let_def)

lemma decodeRound_ev_full:
  assumes "560 \<le> length buf"
  shows "\<exists>r. decodeRound_ev buf = Inr r"
  using assms
  by (simp add: decodeRound_ev_def read_u64s_eq le64_def bind_err_def newPublicKey_def
        subarray_def Let_def)

text \<open>
  C4, as stated, fails: a buffer of 498 bytes is not decoded, the read of the field at
  data offset 496 runs past the end.
\<close>

theorem decodeRound_498_counterexample:
  "length (replicate 498 (0 :: u8)) = 498 \<and> decodeRound (replicate 498 0) = Inl RangeError"
  by (simp add: decodeRound_truncated)

text \<open>
  C4, amended. The fixed layout is 560 bytes long. \<open>decodeRound\<close> of read-round.js
  throws the error "Round data too short" for a buffer of fewer than 8 bytes and a
  \<open>RangeError\<close> for one of 8 to 559 bytes; \<open>decodeRound\<close> of ev-picks.js throws a
  \<open>RangeError\<close> for every buffer of fewer than 560 bytes; both decode every buffer of
  at least 560 bytes. No error carries the required length.
\<close>

theorem decodeRound_length_560:
  "(length buf < 8 \<longrightarrow> decodeRound buf = Inl (JsError ''Round data too short'')) \<and>
   (8 \<le> length buf \<and> length buf < 560 \<longrightarrow> decodeRound buf = Inl RangeError) \<and>
   (560 \<le> length buf \<longrightarrow> (\<exists>r. decodeRound buf = Inr r)) \<and>
   (length buf < 560 \<longrightarrow> decodeRound_ev buf = Inl RangeError) \<and>
   (560 \<le> length buf \<longrightarrow> (\<exists>r. decodeRound_ev buf = Inr r))"
  using decodeRound_short decodeRound_truncated decodeRound_full
    decodeRound_ev_truncated decodeRound_ev_full
  by blast

theorem decodeRound_length_560_witness:
  "decodeRound [] = Inl (JsError ''Round data too short'') \<and>
   decodeRound (replicate 559 0) = Inl RangeError \<and>
   (\<exists>r. decodeRound (replicate 560 0) = Inr r) \<and>
   decodeRound_ev (replicate 559 0) = Inl RangeError \<and>
   (\<exists>r. decodeRound_ev (replicate 560 0) = Inr r)"
  using decodeRound_length_560 [of "[]"] decodeRound_length_560 [of "replicate 559 0"]
    decodeRound_length_560 [of "replicate 560 0"]
  by simp

section \<open>Properties of the expected-value computation\<close>

lemma bigint_div_nonneg:
  "0 \<le> x \<Longrightarrow> 0 < y \<Longrightarrow> bigint_div x y = Inr (x div y)"
  by (auto simp: bigint_div_def)

lemma evForSquare_zero_divisor: "d + a = 0 \<Longrightarrow> evForSquare d T a = Inl RangeError"
  by (simp add: evForSquare_def bigint_div_def bind_err_def Let_def)

lemma evForSquare_ok: "d + a \<noteq> 0 \<Longrightarrow> \<exists>r. evForSquare d T a = Inr r"
  by (simp add: evForSquare_def bigint_div_def bind_err_def Let_def)

lemma evForSquare_value:
  assumes "0 < a" "0 \<le> d" "d \<le> T"
  shows "evForSquare d T a =
     Inr \<lparr> S_win = a * 99 div 100 + ((T - d) * a * 891) div ((d + a) * 1000),
           EV = - a + (a * 99 div 100 + ((T - d) * a * 891) div ((d + a) * 1000)) div 25 \<rparr>"
proof -
  have b: "bigint_div (a * 99) 100 = Inr (a * 99 div 100)"
    using assms by (simp add: bigint_div_nonneg)
  have n0: "0 \<le> (T - d) * a * 891" using assms by simp
  have d0: "0 < (d + a) * 1000" using assms by simp
  have s: "bigint_div ((T - d) * a * 891) ((d + a) * 1000)
      = Inr (((T - d) * a * 891) div ((d + a) * 1000))"
    using n0 d0 by (rule bigint_div_nonneg)
  have "0 \<le> a * 99 div 100" using assms by (simp add: pos_imp_zdiv_nonneg_iff)
  moreover have "0 \<le> ((T - d) * a * 891) div ((d + a) * 1000)"
    using n0 d0 by (simp add: pos_imp_zdiv_nonneg_iff)
  ultimately have q: "bigint_div (a * 99 div 100 + ((T - d) * a * 891) div ((d + a) * 1000)) 25
      = Inr ((a * 99 div 100 + ((T - d) * a * 891) div ((d + a) * 1000)) div 25)"
    by (simp add: bigint_div_nonneg)
  have "T + a - (d + a) = T - d" by simp
  then show ?thesis
    unfolding evForSquare_def Let_def
    by (simp only: b s q bind_err_def sum.case)
qed

lemma spec_S_win_eq:
  assumes "0 < a" "0 \<le> d"
  shows "spec_S_win d T a = a * 99 div 100 + ((T - d) * a * 891) div ((d + a) * 1000)"
proof -
  have "0.99 * real_of_int a = real_of_int (a * 99) / real_of_int 100" by simp
  then have f1: "\<lfloor>0.99 * real_of_int a\<rfloor> = a * 99 div 100"
    by (simp only: floor_divide_of_int_eq)
  have "d + a \<noteq> 0" using assms by simp
  then have "real_of_int (T + a - (d + a)) * real_of_int a * 0.891 / real_of_int (d + a)
        = real_of_int ((T - d) * a * 891) / real_of_int ((d + a) * 1000)"
    by (simp add: field_simps)
  then have f2: "\<lfloor>real_of_int (T + a - (d + a)) * real_of_int a * 0.891 / real_of_int (d + a)\<rfloor>
        = ((T - d) * a * 891) div ((d + a) * 1000)"
    by (simp only: floor_divide_of_int_eq)
  show ?thesis
    unfolding spec_S_win_def Let_def f1 f2 ..
qed

lemma spec_EV_eq: "spec_EV d T a = - a + spec_S_win d T a div 25"
proof -
  have "real_of_int (spec_S_win d T a) / 25 = real_of_int (spec_S_win d T a) / real_of_int 25"
    by simp
  then have "\<lfloor>real_of_int (spec_S_win d T a) / 25\<rfloor> = spec_S_win d T a div 25"
    by (simp only: floor_divide_of_int_eq)
  then show ?thesis by (simp add: spec_EV_def)
qed

lemma member_le_sum_list_int:
  fixes ds :: "int list"
  assumes "\<forall>d \<in> set ds. 0 \<le> d" "i < length ds"
  shows "ds ! i \<le> sum_list ds"
  using assms
proof (induction ds arbitrary: i)
  case Nil
  then show ?case by simp
next
  case (Cons d ds)
  have nn: "0 \<le> sum_list ds" using Cons.prems(1) by (simp add: sum_list_nonneg)
  show ?case
  proof (cases i)
    case 0
    then show ?thesis using nn by simp
  next
    case (Suc k)
    then have "ds ! k \<le> sum_list ds" using Cons by simp
    then show ?thesis using Suc Cons.prems(1) by simp
  qed
qed

text \<open>
  C2. For a stake \<open>a > 0\<close> and 25 nonnegative deployed amounts with total \<open>T\<close>, the
  result for square \<open>i\<close> is exactly the spec's \<open>S_win\<close> and \<open>EV\<close>: the floors of the
  real-valued formulas, computed on unbounded integers.
\<close>

theorem evForSquare_spec_formula:
  assumes "0 < a" and "length ds = 25" and "\<forall>d \<in> set ds. 0 \<le> d"
    and "T = sum_list ds" and "i < 25"
  shows "evForSquare (ds ! i) T a =
           Inr \<lparr> S_win = spec_S_win (ds ! i) T a, EV = spec_EV (ds ! i) T a \<rparr>"
proof -
  have d0: "0 \<le> ds ! i" using assms by simp
  have dT: "ds ! i \<le> T" using member_le_sum_list_int [of ds i] assms by simp
  show ?thesis
    using evForSquare_value [OF assms(1) d0 dT]
    by (simp add: spec_EV_eq spec_S_win_eq [OF assms(1) d0])
qed

theorem evForSquare_spec_formula_witness:
  "evForSquare 0 0 100 = Inr \<lparr> S_win = 99, EV = -97 \<rparr>"
  using evForSquare_spec_formula [of 100 "replicate 25 0" 0 0]
  by (simp add: spec_EV_def spec_S_win_def Let_def sum_list_replicate)

text \<open>
  C5, as stated, fails: a stake of 0 on a square holding 5 of 10 deployed units is
  accepted and evaluates to \<open>S_win = 0\<close>, \<open>EV = 0\<close>.
\<close>

theorem evForSquare_stake_zero_counterexample:
  "evForSquare 5 10 0 = Inr \<lparr> S_win = 0, EV = 0 \<rparr>"
  by (simp add: evForSquare_def bigint_div_def bind_err_def Let_def)

text \<open>
  C5, amended. \<open>evForSquare\<close> validates nothing. Its only failure is the
  \<open>RangeError\<close> of a division by zero, which happens exactly when the deployed amount plus
  the stake is zero; every other call returns a result, in particular every call with a
  positive stake and a nonnegative deployed amount.
\<close>

theorem evForSquare_only_failure:
  "(evForSquare d T a = Inl RangeError \<longleftrightarrow> d + a = 0) \<and>
   (\<forall>e. evForSquare d T a = Inl e \<longrightarrow> e = RangeError \<and> d + a = 0) \<and>
   (d + a \<noteq> 0 \<longrightarrow> (\<exists>r. evForSquare d T a = Inr r)) \<and>
   (0 < a \<and> 0 \<le> d \<longrightarrow> (\<exists>r. evForSquare d T a = Inr r))"
proof -
  have ok: "\<exists>r. evForSquare d T a = Inr r" if "d + a \<noteq> 0"
    using that by (rule evForSquare_ok)
  have iff: "evForSquare d T a = Inl RangeError \<longleftrightarrow> d + a = 0"
  proof
    assume "evForSquare d T a = Inl RangeError"
    then show "d + a = 0" using ok by force
  next
    assume "d + a = 0"
    then show "evForSquare d T a = Inl RangeError" by (rule evForSquare_zero_divisor)
  qed
  have only: "e = RangeError \<and> d + a = 0" if "evForSquare d T a = Inl e" for e
  proof (cases "d + a = 0")
    case True
    then show ?thesis using that evForSquare_zero_divisor [of d a T] by simp
  next
    case False
    then show ?thesis using that ok by force
  qed
  have "\<exists>r. evForSquare d T a = Inr r" if "0 < a \<and> 0 \<le> d"
    using that ok by simp
  then show ?thesis using iff only ok by blast
qed

theorem evForSquare_only_failure_witness:
  "evForSquare 0 0 0 = Inl RangeError \<and> (\<exists>r. evForSquare 5 10 0 = Inr r) \<and>
   (\<exists>r. evForSquare 0 0 100 = Inr r)"
  using evForSquare_only_failure [of 0 0 0] evForSquare_only_failure [of 5 10 0]
    evForSquare_only_failure [of 0 0 100]
  by simp

text \<open>
  C10, as stated, fails: with a negative stake the division by zero is reached although
  neither the stake nor the deployed amount is zero.
\<close>

theorem evForSquare_negative_stake_counterexample:
  "evForSquare 5 10 (- 5) = Inl RangeError \<and> (- 5 :: int) \<noteq> 0 \<and> (5 :: int) \<noteq> 0"
  by (simp add: evForSquare_zero_divisor)

text \<open>
  C10, amended. For a stake \<open>a > 0\<close> and a nonnegative deployed amount no divisor is
  zero and the computation returns a result. A division by zero is reached exactly when
  \<open>a = - d_i\<close>; for a nonnegative stake and a nonnegative deployed amount that is the
  case \<open>a = 0\<close> and \<open>d_i = 0\<close>.
\<close>

theorem evForSquare_division_by_zero_iff:
  "(0 < a \<and> 0 \<le> d \<longrightarrow> (\<exists>r. evForSquare d T a = Inr r)) \<and>
   (evForSquare d T a = Inl RangeError \<longleftrightarrow> a = - d) \<and>
   (0 \<le> a \<and> 0 \<le> d \<longrightarrow> (evForSquare d T a = Inl RangeError \<longleftrightarrow> a = 0 \<and> d = 0))"
proof -
  have iff: "evForSquare d T a = Inl RangeError \<longleftrightarrow> a = - d"
  proof (cases "d + a = 0")
    case True
    then show ?thesis using evForSquare_zero_divisor [of d a T] by auto
  next
    case False
    then show ?thesis using evForSquare_ok [of d a T] by auto
  qed
  have "\<exists>r. evForSquare d T a = Inr r" if "0 < a \<and> 0 \<le> d"
    using that evForSquare_ok [of d a T] by simp
  moreover have "evForSquare d T a = Inl RangeError \<longleftrightarrow> a = 0 \<and> d = 0"
    if "0 \<le> a \<and> 0 \<le> d"
    using that iff by auto
  ultimately show ?thesis using iff by blast
qed

theorem evForSquare_division_by_zero_iff_witness:
  "(\<exists>r. evForSquare 0 0 100 = Inr r) \<and> evForSquare 0 0 0 = Inl RangeError \<and>
   evForSquare 5 10 (- 5) = Inl RangeError"
  using evForSquare_division_by_zero_iff [of 100 0 0]
    evForSquare_division_by_zero_iff [of 0 0 0]
    evForSquare_division_by_zero_iff [of "- 5" 5 10]
  by simp

section \<open>Properties of the ranker\<close>

lemma insort_ranks:
  assumes "sorted_wrt ranks_before ys" and "\<forall>y \<in> set ys. index0 x < index0 y"
  shows "sorted_wrt ranks_before (insort_key (\<lambda>e. - p e) x ys)"
  using assms
proof (induction ys)
  case Nil
  then show ?case by simp
next
  case (Cons y ys)
  show ?case
  proof (cases "p y \<le> p x")
    case True
    have "ranks_before x z" if "z \<in> set (y # ys)" for z
    proof -
      have "p z \<le> p y" using that Cons.prems(1) by (auto simp: ranks_before_def)
      moreover have "index0 x < index0 z" using that Cons.prems(2) by auto
      ultimately show ?thesis using True by (auto simp: ranks_before_def)
    qed
    then show ?thesis using True Cons.prems(1) by simp
  next
    case False
    have "sorted_wrt ranks_before (insort_key (\<lambda>e. - p e) x ys)"
      using Cons by simp
    moreover have "ranks_before y z" if "z \<in> set (insort_key (\<lambda>e. - p e) x ys)" for z
      using that False Cons.prems(1) by (auto simp: set_insort_key ranks_before_def)
    ultimately show ?thesis using False by simp
  qed
qed

lemma sort_key_ranks:
  assumes "sorted_wrt (\<lambda>a b. index0 a < index0 b) xs"
  shows "sorted_wrt ranks_before (sort_key (\<lambda>e. - p e) xs)"
  using assms
proof (induction xs)
  case Nil
  then show ?case by simp
next
  case (Cons x xs)
  then show ?case by (simp add: insort_ranks)
qed

lemma enumerate_picks:
  "map (\<lambda>(i, v). \<lparr> index0 = i, index1 = i + 1, p = v \<rparr>) (enumerate 0 v)
     = map (pick_of v) [0..<length v]"
  by (rule nth_equalityI) (simp_all add: nth_enumerate_eq pick_of_def)

lemma picks_index_sorted:
  "sorted_wrt (\<lambda>a b. index0 a < index0 b) (map (pick_of v) [0..<length v])"
  by (simp add: sorted_wrt_map pick_of_def sorted_wrt_iff_nth_less)

lemma topN_ranking: "topN v n = slice0 (ranking v) (nullish n 3)"
  unfolding topN_def ranking_def Let_def enumerate_picks ..

lemma ranking_sorted: "sorted_wrt ranks_before (ranking v)"
  unfolding ranking_def by (rule sort_key_ranks [OF picks_index_sorted])

lemma set_ranking: "set (ranking v) = pick_of v ` {..<length v}"
  by (auto simp: ranking_def)

lemma length_ranking: "length (ranking v) = length v"
  by (simp add: ranking_def)

text \<open>
  C9. For a vector \<open>v\<close> of finite numbers and \<open>n\<close> not above its length, \<open>topN\<close>
  returns \<open>n\<close> entries, each the entry of a square of \<open>v\<close>; they are ordered by
  descending value with equal values in ascending square index; and every square left
  out ranks after every square returned. This order is strict and total on the entries
  of \<open>v\<close>, so the output is determined by the vector alone.
\<close>

theorem topN_ranked:
  assumes "0 \<le> n" and "n \<le> int (length v)"
  shows "length (topN v (Some n)) = nat n
       \<and> sorted_wrt ranks_before (topN v (Some n))
       \<and> set (topN v (Some n)) \<subseteq> pick_of v ` {..<length v}
       \<and> (\<forall>i < length v. pick_of v i \<in> set (topN v (Some n))
             \<or> (\<forall>e \<in> set (topN v (Some n)). ranks_before e (pick_of v i)))"
proof -
  have out: "topN v (Some n) = take (nat n) (ranking v)"
    using assms by (simp add: topN_ranking slice0_def nullish_def)
  have len: "length (topN v (Some n)) = nat n"
    using assms by (simp add: out length_ranking)
  have split: "ranking v = topN v (Some n) @ drop (nat n) (ranking v)"
    by (simp add: out)
  have srt: "sorted_wrt ranks_before (topN v (Some n) @ drop (nat n) (ranking v))"
    using ranking_sorted [of v] split by simp
  then have s1: "sorted_wrt ranks_before (topN v (Some n))"
    by (simp add: sorted_wrt_append)
  have sub: "set (topN v (Some n)) \<subseteq> pick_of v ` {..<length v}"
    using set_take_subset [of "nat n" "ranking v"] by (simp add: out set_ranking)
  have top: "pick_of v i \<in> set (topN v (Some n))
             \<or> (\<forall>e \<in> set (topN v (Some n)). ranks_before e (pick_of v i))"
    if "i < length v" for i
  proof -
    have "pick_of v i \<in> set (ranking v)" using that by (simp add: set_ranking)
    then have "pick_of v i \<in> set (topN v (Some n))
        \<or> pick_of v i \<in> set (drop (nat n) (ranking v))"
      using split by (metis Un_iff set_append)
    then show ?thesis using srt by (auto simp: sorted_wrt_append)
  qed
  show ?thesis using len s1 sub top by blast
qed

theorem topN_ranked_witness:
  "topN [0.2, 0.5, 0.2, 0.5] (Some 3) =
     [\<lparr> index0 = 1, index1 = 2, p = 0.5 \<rparr>, \<lparr> index0 = 3, index1 = 4, p = 0.5 \<rparr>,
      \<lparr> index0 = 0, index1 = 1, p = 0.2 \<rparr>]"
  using topN_ranked [of 3 "[0.2, 0.5, 0.2, 0.5]"]
  by (simp add: topN_def enumerate_eq_zip slice0_def nullish_def Let_def)

section \<open>Properties of the posterior estimator\<close>

subsection \<open>Sums of numbers\<close>

lemma jadd_Fin_iff: "jadd x y = Fin r \<longleftrightarrow> (\<exists>a b. x = Fin a \<and> y = Fin b \<and> r = a + b)"
  by (cases x; cases y) auto


lemma foldl_jadd_is_Fin:
  "foldl jadd acc xs = Fin r \<Longrightarrow> \<exists>a rs. acc = Fin a \<and> xs = map Fin rs \<and> r = a + sum_list rs"
proof (induction xs arbitrary: acc)
  case Nil
  then show ?case by simp
next
  case (Cons x xs)
  then obtain a' rs where h: "jadd acc x = Fin a'" "xs = map Fin rs" "r = a' + sum_list rs"
    by force
  then obtain a b where "acc = Fin a" "x = Fin b" "a' = a + b"
    by (auto simp: jadd_Fin_iff)
  then have "acc = Fin a \<and> x # xs = map Fin (b # rs) \<and> r = a + sum_list (b # rs)"
    using h by simp
  then show ?case by (intro exI)
qed


lemma jsum_is_Fin: "jsum xs = Fin r \<Longrightarrow> \<exists>rs. xs = map Fin rs \<and> sum_list rs = r"
  unfolding jsum_def by (drule foldl_jadd_is_Fin) auto



subsection \<open>Stages of the estimator\<close>

lemma present_map_Val: "present (map Val xs) = xs"
  by (induction xs) simp_all

lemma renormalize_map_Val:
  "renormalize (map Val xs) =
     map (\<lambda>x. Val (if jgt (jsum xs) (Fin 0) then jdiv x (jsum xs)
                    else jdiv (Fin 1) (Fin (real N_squares)))) xs"
  by (simp add: renormalize_def present_map_Val Let_def)





subsection \<open>Infinite and undefined sums\<close>

lemma jclass_jmul_pos: "0 < c \<Longrightarrow> jclass (jmul x (Fin c)) = jclass x"
  by (cases x) simp_all

lemma jadd_PInf_iff:
  "jadd x y = PInf \<longleftrightarrow> (x = PInf \<or> y = PInf) \<and> jclass x < 2 \<and> jclass y < 2"
  by (cases x; cases y) simp_all

lemma jadd_good: "jclass (jadd x y) < 2 \<Longrightarrow> jclass x < 2 \<and> jclass y < 2"
  by (cases x; cases y) simp_all

lemma foldl_jadd_good:
  "jclass (foldl jadd acc xs) < 2 \<Longrightarrow> jclass acc < 2 \<and> (\<forall>x \<in> set xs. jclass x < 2)"
proof (induction xs arbitrary: acc)
  case Nil
  then show ?case by simp
next
  case (Cons x xs)
  have "jclass (jadd acc x) < 2 \<and> (\<forall>y \<in> set xs. jclass y < 2)"
    using Cons.IH [of "jadd acc x"] Cons.prems by simp
  then show ?case using jadd_good [of acc x] by simp
qed

lemma foldl_jadd_PInf:
  "foldl jadd acc xs = PInf \<Longrightarrow> acc = PInf \<or> PInf \<in> set xs"
proof (induction xs arbitrary: acc)
  case Nil
  then show ?case by simp
next
  case (Cons x xs)
  have "jadd acc x = PInf \<or> PInf \<in> set xs"
    using Cons.IH [of "jadd acc x"] Cons.prems by simp
  then show ?case by (auto simp: jadd_PInf_iff)
qed

lemma jsum_PInf:
  assumes "jsum xs = PInf"
  shows "PInf \<in> set xs \<and> (\<forall>x \<in> set xs. jclass x < 2)"
proof -
  have "jclass (foldl jadd (Fin 0) xs) < 2" using assms by (simp add: jsum_def)
  then have "\<forall>x \<in> set xs. jclass x < 2" using foldl_jadd_good by blast
  moreover have "PInf \<in> set xs"
    using foldl_jadd_PInf [of "Fin 0" xs] assms by (simp add: jsum_def)
  ultimately show ?thesis by simp
qed

lemma length_count_step: "length (count_step cs e) = length cs"
  by (cases e; cases "fst e") auto

lemma length_count_loop: "length (count_loop cs es) = length cs"
  by (induction es arbitrary: cs) (simp_all add: length_count_step)

lemma length_countsOf: "length (countsOf sorted_w h) = N_squares"
  by (simp add: countsOf_def length_count_loop)

lemma length_posteriorMean: "length (posteriorMean cs a) = length cs"
  by (simp add: posteriorMean_def Let_def)

lemma sum_list_shift: "sum_list (map (\<lambda>r. a + r) rs) = real (length rs) * a + sum_list rs"
  by (induction rs) (simp_all add: algebra_simps)

lemma sum_list_pos_real:
  fixes rs :: "real list"
  assumes "rs \<noteq> []" "\<forall>r \<in> set rs. 0 < r"
  shows "0 < sum_list rs"
  using assms
proof (induction rs)
  case Nil
  then show ?case by simp
next
  case (Cons r rs)
  then show ?case by (cases rs) (auto intro: add_pos_pos)
qed

lemma jdiv_Fin_Fin_class:
  "jclass (jdiv (Fin x) (Fin d)) < 2 \<Longrightarrow> d = 0 \<Longrightarrow> 0 < x"
  by (cases "0 < x"; cases "x < 0") simp_all

lemma jdiv_inf_not_PInf: "jclass den \<noteq> 0 \<Longrightarrow> jdiv x den \<noteq> PInf"
  by (cases x; cases den) simp_all

lemma posteriorMean_Fin:
  assumes "jsum (map Fin rs) = Fin w"
  shows "posteriorMean (map Fin rs) a =
     map (\<lambda>r. jdiv (Fin (a + r)) (Fin (real N_squares * a + w))) rs"
  unfolding posteriorMean_def Let_def assms by simp

lemma posteriorMean_not_PInf:
  assumes len: "length cs = N_squares"
  shows "\<not> (PInf \<in> set (posteriorMean cs a)
            \<and> (\<forall>x \<in> set (posteriorMean cs a). jclass x < 2))"
proof (cases "jclass (jsum cs) = 0")
  case True
  then obtain w where w: "jsum cs = Fin w" by (cases "jsum cs") simp_all
  then obtain rs where rs: "cs = map Fin rs" "sum_list rs = w"
    using jsum_is_Fin by blast
  define D where "D = real N_squares * a + w"
  have P: "posteriorMean cs a = map (\<lambda>r. jdiv (Fin (a + r)) (Fin D)) rs"
    using posteriorMean_Fin [of rs w a] w unfolding rs(1) D_def by simp
  show ?thesis
  proof (cases "D = 0")
    case False
    then have "\<forall>x \<in> set (posteriorMean cs a). jclass x = 0"
      unfolding P by simp
    then show ?thesis by fastforce
  next
    case D0: True
    show ?thesis
    proof
      assume "PInf \<in> set (posteriorMean cs a)
            \<and> (\<forall>x \<in> set (posteriorMean cs a). jclass x < 2)"
      then have "\<forall>r \<in> set rs. jclass (jdiv (Fin (a + r)) (Fin D)) < 2"
        unfolding P set_map by blast
      then have pos: "\<forall>r \<in> set rs. 0 < a + r"
        using jdiv_Fin_Fin_class D0 by blast
      have ne: "map (\<lambda>r. a + r) rs \<noteq> []"
        using len unfolding rs(1) N_squares_def by auto
      have "\<forall>x \<in> set (map (\<lambda>r. a + r) rs). 0 < x" using pos by simp
      then have "0 < sum_list (map (\<lambda>r. a + r) rs)"
        using sum_list_pos_real [OF ne] by blast
      moreover have "sum_list (map (\<lambda>r. a + r) rs) = D"
        using len unfolding sum_list_shift D_def rs(1) rs(2) [symmetric] by simp
      ultimately show False using D0 by simp
    qed
  qed
next
  case False
  define den where "den = jadd (jmul (Fin (real N_squares)) (Fin a)) (jsum cs)"
  have e: "posteriorMean cs a = map (\<lambda>w. jdiv (jadd (Fin a) w) den) cs"
    by (simp add: posteriorMean_def den_def)
  have "jclass den \<noteq> 0"
    using False unfolding den_def by (cases "jsum cs") simp_all
  then have nd: "jdiv x den \<noteq> PInf" for x
    by (rule jdiv_inf_not_PInf)
  have "PInf \<notin> set (posteriorMean cs a)"
  proof
    assume "PInf \<in> set (posteriorMean cs a)"
    then obtain w where "PInf = jdiv (jadd (Fin a) w) den"
      unfolding e set_map by (rule imageE)
    then show False using nd [of "jadd (Fin a) w"] by simp
  qed
  then show ?thesis by simp
qed

subsection \<open>Penalties and renormalisation\<close>

lemma penalize_in_range:
  assumes "0 \<le> k" "nat k < length xs" "length xs = N_squares"
  shows "penalize (map Val xs) (IntIdx k) c = map Val (xs[nat k := jmul (xs ! nat k) (Fin c)])"
proof -
  have "k < 2 ^ 32 - 1" using assms by (simp add: N_squares_def)
  then show ?thesis using assms(1,2) by (simp add: readNum_def writeSlot_def map_update)
qed

lemma penalize_no_index:
  assumes "k < 0 \<or> 2 ^ 32 - 1 \<le> k"
  shows "penalize probs (IntIdx k) c = probs"
proof -
  have "\<not> (0 \<le> k \<and> k < 2 ^ 32 - 1)" using assms by linarith
  then show ?thesis by (simp only: penalize.simps if_False)
qed

lemma jclass_update:
  assumes "0 < c" "i < length xs"
  shows "map jclass (xs[i := jmul (xs ! i) (Fin c)]) = map jclass xs"
proof (rule nth_equalityI)
  show "length (map jclass (xs[i := jmul (xs ! i) (Fin c)])) = length (map jclass xs)"
    by simp
next
  fix j
  assume "j < length (map jclass (xs[i := jmul (xs ! i) (Fin c)]))"
  then have j: "j < length xs" by simp
  show "map jclass (xs[i := jmul (xs ! i) (Fin c)]) ! j = map jclass xs ! j"
  proof (cases "j = i")
    case True
    then show ?thesis using j assms(1) by (simp add: jclass_jmul_pos)
  next
    case False
    then show ?thesis using j by simp
  qed
qed

lemma penalize_harmless:
  assumes h: "harmless idx" and c: "0 < c" and len: "length xs = N_squares"
  shows "\<exists>ys. penalize (map Val xs) idx c = map Val ys \<and> map jclass ys = map jclass xs"
proof (cases idx)
  case NotInt
  have "penalize (map Val xs) NotInt c = map Val xs \<and> map jclass xs = map jclass xs"
    by (simp only: penalize.simps)
  then show ?thesis unfolding NotInt by (rule exI)
next
  case (IntIdx k)
  show ?thesis
  proof (cases "0 \<le> k \<and> k < int N_squares")
    case True
    have k0: "0 \<le> k" using True by (rule conjunct1)
    have kl: "nat k < length xs" using True len by linarith
    have 1: "penalize (map Val xs) (IntIdx k) c
        = map Val (xs[nat k := jmul (xs ! nat k) (Fin c)])"
      using k0 kl len by (rule penalize_in_range)
    have 2: "map jclass (xs[nat k := jmul (xs ! nat k) (Fin c)]) = map jclass xs"
      using c kl by (rule jclass_update)
    show ?thesis unfolding IntIdx using 1 2 by (intro exI conjI)
  next
    case False
    have "k < int N_squares \<or> 2 ^ 32 - 1 \<le> k"
      using h unfolding IntIdx harmless_def by (simp only: js_index.case)
    then have "k < 0 \<or> 2 ^ 32 - 1 \<le> k" using False by linarith
    then have "penalize (map Val xs) (IntIdx k) c = map Val xs"
      by (rule penalize_no_index)
    then have "penalize (map Val xs) (IntIdx k) c = map Val xs \<and> map jclass xs = map jclass xs"
      by (rule conjI) (rule refl)
    then show ?thesis unfolding IntIdx by (rule exI)
  qed
qed

lemma sum_list_div: "sum_list (map (\<lambda>x. x / r) qs) = sum_list qs / (r::real)"
  by (induction qs) (simp_all add: add_divide_distrib)

lemma renormalize_sums_to_one:
  assumes len: "length Q = N_squares"
    and cls: "\<not> (PInf \<in> set Q \<and> (\<forall>x \<in> set Q. jclass x < 2))"
  shows "\<exists>ps. renormalize (map Val Q) = map (\<lambda>x. Val (Fin x)) ps
              \<and> length ps = 25 \<and> sum_list ps = 1"
proof (cases "jgt (jsum Q) (Fin 0)")
  case False
  have "renormalize (map Val Q) = map (\<lambda>x. Val (Fin x)) (replicate 25 (1 / 25))"
    unfolding renormalize_map_Val using False len
    by (simp add: N_squares_def map_replicate_const)
  moreover have "sum_list (replicate 25 (1 / 25 :: real)) = 1"
    by (simp add: sum_list_replicate)
  ultimately show ?thesis by (intro exI [of _ "replicate 25 (1 / 25)"]) simp
next
  case True
  have "jsum Q \<noteq> PInf" using jsum_PInf [of Q] cls by blast
  then obtain r where r: "jsum Q = Fin r" "0 < r"
    using True by (cases "jsum Q") simp_all
  then obtain qs where qs: "Q = map Fin qs" "sum_list qs = r"
    using jsum_is_Fin by blast
  have "renormalize (map Val Q) = map (\<lambda>x. Val (Fin x)) (map (\<lambda>x. x / r) qs)"
    unfolding renormalize_map_Val r(1) using r(2) unfolding qs(1) by simp
  moreover have "length (map (\<lambda>x. x / r) qs) = 25"
    using len unfolding qs(1) by (simp add: N_squares_def)
  moreover have "sum_list (map (\<lambda>x. x / r) qs) = 1"
    unfolding sum_list_div qs(2) using r(2) by simp
  ultimately show ?thesis by (intro exI conjI)
qed

lemma PInf_in_set_iff: "PInf \<in> set zs \<longleftrightarrow> 1 \<in> set (map jclass zs)"
proof
  assume "PInf \<in> set zs"
  then have "jclass PInf \<in> jclass ` set zs" by (rule imageI)
  then show "1 \<in> set (map jclass zs)" by simp
next
  assume "1 \<in> set (map jclass zs)"
  then have "1 \<in> jclass ` set zs" by simp
  then obtain z where z: "1 = jclass z" "z \<in> set zs" by (rule imageE)
  have "z = PInf" using z(1) by (cases z) simp_all
  then show "PInf \<in> set zs" using z(2) by simp
qed

lemma good_set_iff: "(\<forall>x \<in> set zs. jclass x < 2) \<longleftrightarrow> (\<forall>c \<in> set (map jclass zs). c < 2)"
  by simp

lemma class_pred_cong:
  assumes "map jclass ys = map jclass xs"
  shows "(PInf \<in> set ys \<and> (\<forall>x \<in> set ys. jclass x < 2))
       \<longleftrightarrow> (PInf \<in> set xs \<and> (\<forall>x \<in> set xs. jclass x < 2))"
  by (simp only: PInf_in_set_iff good_set_iff assms)

lemma set_slice0: "set (slice0 xs n) \<subseteq> set xs"
  unfolding slice0_def by (cases "n < 0") (simp_all add: set_take_subset)

lemma set_sortedWindow: "set (sortedWindow winners opts) \<subseteq> set winners"
proof -
  have "set (sortedWindow winners opts) \<subseteq> set (sortByRoundDesc winners)"
    unfolding sortedWindow_def by (rule set_slice0)
  then show ?thesis by (simp add: sortByRoundDesc_def)
qed

lemma wellFormed_harmless: "wellFormed w \<Longrightarrow> harmless (blockNumber w)"
  unfolding wellFormed_def harmless_def by (cases "blockNumber w") simp_all

lemma blockNumberAt_harmless:
  assumes "\<forall>w \<in> set sorted_w. wellFormed w"
  shows "harmless (blockNumberAt sorted_w k)"
proof (cases "k < length sorted_w")
  case True
  then have "sorted_w ! k \<in> set sorted_w" by (rule nth_mem)
  then have "harmless (blockNumber (sorted_w ! k))"
    using assms wellFormed_harmless by blast
  then show ?thesis using True by (simp add: blockNumberAt_def)
next
  case False
  then show ?thesis by (simp add: blockNumberAt_def harmless_def)
qed

lemma dirichlet_unfold:
  "dirichletTimeDecayedPriors winners opts =
     renormalize
       (penalize
          (penalize
             (map Val (posteriorMean (countsOf (sortedWindow winners opts)
                                        (nullish (halfLife opts) 10))
                                     (nullish (alpha opts) 1.0)))
             (blockNumberAt (sortedWindow winners opts) 0) 0.6)
          (blockNumberAt (sortedWindow winners opts) 1) 0.8)"
  unfolding dirichletTimeDecayedPriors_def Let_def ..

lemma posterior_sums_general:
  assumes h0: "harmless (blockNumberAt (sortedWindow winners opts) 0)"
    and h1: "harmless (blockNumberAt (sortedWindow winners opts) 1)"
  shows "\<exists>ps. dirichletTimeDecayedPriors winners opts = map (\<lambda>x. Val (Fin x)) ps
              \<and> length ps = 25 \<and> sum_list ps = 1"
proof -
  define cs where "cs = countsOf (sortedWindow winners opts) (nullish (halfLife opts) 10)"
  define P where "P = posteriorMean cs (nullish (alpha opts) 1.0)"
  have lcs: "length cs = N_squares" unfolding cs_def by (rule length_countsOf)
  have lP: "length P = N_squares" unfolding P_def length_posteriorMean by (rule lcs)
  have c6: "(0::real) < 0.6" by simp
  have c8: "(0::real) < 0.8" by simp
  obtain Y1 where Y1: "penalize (map Val P) (blockNumberAt (sortedWindow winners opts) 0) 0.6
        = map Val Y1" "map jclass Y1 = map jclass P"
    using penalize_harmless [OF h0 c6 lP] by blast
  have "length (map jclass Y1) = length (map jclass P)" using Y1(2) by (rule arg_cong)
  then have lY1: "length Y1 = N_squares" using lP by simp
  obtain Y2 where Y2: "penalize (map Val Y1) (blockNumberAt (sortedWindow winners opts) 1) 0.8
        = map Val Y2" "map jclass Y2 = map jclass Y1"
    using penalize_harmless [OF h1 c8 lY1] by blast
  have "length (map jclass Y2) = length (map jclass Y1)" using Y2(2) by (rule arg_cong)
  then have lY2: "length Y2 = N_squares" using lY1 by simp
  have out: "dirichletTimeDecayedPriors winners opts = renormalize (map Val Y2)"
    unfolding dirichlet_unfold cs_def [symmetric] P_def [symmetric] Y1(1) Y2(1) ..
  have "\<not> (PInf \<in> set P \<and> (\<forall>x \<in> set P. jclass x < 2))"
    unfolding P_def using lcs by (rule posteriorMean_not_PInf)
  then have "\<not> (PInf \<in> set Y2 \<and> (\<forall>x \<in> set Y2. jclass x < 2))"
    unfolding class_pred_cong [OF Y2(2)] class_pred_cong [OF Y1(2)] .
  then show ?thesis unfolding out using lY2 by (intro renormalize_sums_to_one)
qed

text \<open>
  On well-formed records the normalisation is sound: for every such history, of any
  length, and for every options record, the estimator returns 25 finite numbers whose sum
  is 1 (exactly, as numbers are idealised reals).
\<close>

lemma posterior_sums_to_one_wellformed:
  assumes "\<forall>w \<in> set winners. wellFormed w"
  shows "\<exists>ps. dirichletTimeDecayedPriors winners opts = map (\<lambda>x. Val (Fin x)) ps
              \<and> length ps = 25 \<and> sum_list ps = 1"
proof -
  have "\<forall>w \<in> set (sortedWindow winners opts). wellFormed w"
    using assms set_sortedWindow by blast
  then show ?thesis
    by (intro posterior_sums_general blockNumberAt_harmless)
qed

subsection \<open>Records that name no square\<close>

lemma round_no_neutral: "round_no (neutral w) = round_no w"
  by (simp add: neutral_def)

lemma insort_key_neutral:
  "insort_key (\<lambda>w. - round_no w) (neutral x) (map neutral ys)
     = map neutral (insort_key (\<lambda>w. - round_no w) x ys)"
  by (induction ys) (simp_all add: round_no_neutral)

lemma sortByRoundDesc_neutral:
  "sortByRoundDesc (map neutral winners) = map neutral (sortByRoundDesc winners)"
  unfolding sortByRoundDesc_def
  by (induction winners) (simp_all add: insort_key_neutral)

lemma slice0_map: "slice0 (map f xs) n = map f (slice0 xs n)"
  by (simp add: slice0_def take_map)

lemma sortedWindow_neutral:
  "sortedWindow (map neutral winners) opts = map neutral (sortedWindow winners opts)"
  by (simp only: sortedWindow_def sortByRoundDesc_neutral slice0_map)

lemma count_step_neutral:
  "count_step cs (blockNumber (neutral w), x) = count_step cs (blockNumber w, x)"
proof (cases "wellFormed w")
  case True
  then show ?thesis by (simp add: neutral_def)
next
  case False
  then have n: "blockNumber (neutral w) = NotInt" by (simp add: neutral_def)
  show ?thesis
  proof (cases "blockNumber w")
    case NotInt
    then show ?thesis using n by simp
  next
    case (IntIdx k)
    then have "\<not> (0 \<le> k \<and> k < int N_squares)" using False by (simp add: wellFormed_def)
    then have "count_step cs (IntIdx k, x) = cs"
      by (simp only: count_step.simps if_False)
    then show ?thesis unfolding n IntIdx by simp
  qed
qed

lemma count_loop_neutral:
  "count_loop cs (zip (map blockNumber (map neutral ws)) xs)
     = count_loop cs (zip (map blockNumber ws) xs)"
proof (induction ws arbitrary: cs xs)
  case Nil
  show ?case by simp
next
  case (Cons w ws)
  show ?case
  proof (cases xs)
    case Nil
    then show ?thesis by simp
  next
    case (Cons x xs')
    show ?thesis
      unfolding Cons using Cons.IH [of "count_step cs (blockNumber w, x)" xs']
      by (simp add: count_step_neutral)
  qed
qed

lemma countsOf_neutral: "countsOf (map neutral ws) h = countsOf ws h"
  by (simp only: countsOf_def weights_def length_map count_loop_neutral)

lemma blockNumberAt_neutral:
  "blockNumberAt (map neutral ws) k =
     (if k < length ws then blockNumber (neutral (ws ! k)) else NotInt)"
  by (simp add: blockNumberAt_def)

lemma penalize_neutral:
  assumes h: "harmless (blockNumberAt ws k)" and len: "length xs = N_squares"
  shows "penalize (map Val xs) (blockNumberAt (map neutral ws) k) c
       = penalize (map Val xs) (blockNumberAt ws k) c"
proof (cases "k < length ws")
  case False
  then show ?thesis by (simp add: blockNumberAt_def)
next
  case True
  then have b: "blockNumberAt ws k = blockNumber (ws ! k)"
    "blockNumberAt (map neutral ws) k = blockNumber (neutral (ws ! k))"
    by (simp_all add: blockNumberAt_def)
  show ?thesis
  proof (cases "wellFormed (ws ! k)")
    case True
    then show ?thesis unfolding b by (simp add: neutral_def)
  next
    case False
    then have n: "blockNumber (neutral (ws ! k)) = NotInt" by (simp add: neutral_def)
    show ?thesis
    proof (cases "blockNumber (ws ! k)")
      case NotInt
      then show ?thesis unfolding b n by simp
    next
      case (IntIdx i)
      have "\<not> (0 \<le> i \<and> i < int N_squares)" using False IntIdx by (simp add: wellFormed_def)
      moreover have "i < int N_squares \<or> 2 ^ 32 - 1 \<le> i"
        using h unfolding b(1) IntIdx harmless_def by (simp only: js_index.case)
      ultimately have "i < 0 \<or> 2 ^ 32 - 1 \<le> i" by linarith
      then have "penalize (map Val xs) (IntIdx i) c = map Val xs"
        by (rule penalize_no_index)
      then show ?thesis unfolding b n IntIdx by simp
    qed
  qed
qed

text \<open>
  What the code does ignore: records that name no square have no effect on the result
  as long as neither of the two most recent records of the window carries an integer
  index in \<open>[25, 2^32 - 2]\<close>.
\<close>

lemma out_of_range_ignored_when_harmless:
  assumes h0: "harmless (blockNumberAt (sortedWindow winners opts) 0)"
    and h1: "harmless (blockNumberAt (sortedWindow winners opts) 1)"
  shows "dirichletTimeDecayedPriors (map neutral winners) opts
       = dirichletTimeDecayedPriors winners opts"
proof -
  define W where "W = sortedWindow winners opts"
  define P where "P = posteriorMean (countsOf W (nullish (halfLife opts) 10))
                        (nullish (alpha opts) 1.0)"
  have lP: "length P = N_squares"
    unfolding P_def length_posteriorMean by (rule length_countsOf)
  have c6: "(0::real) < 0.6" by simp
  obtain Y1 where Y1: "penalize (map Val P) (blockNumberAt W 0) 0.6 = map Val Y1"
      "map jclass Y1 = map jclass P"
    using penalize_harmless [OF h0 [folded W_def] c6 lP] by blast
  have "length (map jclass Y1) = length (map jclass P)" using Y1(2) by (rule arg_cong)
  then have lY1: "length Y1 = N_squares" using lP by simp
  have 1: "penalize (map Val P) (blockNumberAt (map neutral W) 0) 0.6 = map Val Y1"
    using penalize_neutral [OF h0 [folded W_def] lP] Y1(1) by simp
  have 2: "penalize (map Val Y1) (blockNumberAt (map neutral W) 1) 0.8
      = penalize (map Val Y1) (blockNumberAt W 1) 0.8"
    using h1 [folded W_def] lY1 by (rule penalize_neutral)
  show ?thesis
    unfolding dirichlet_unfold sortedWindow_neutral W_def [symmetric] countsOf_neutral
      P_def [symmetric] 1 Y1(1) 2 ..
qed

subsection \<open>The estimator on finite positive numbers\<close>





















subsection \<open>The estimator on concrete histories\<close>

lemmas estimator_defs = dirichletTimeDecayedPriors_def sortedWindow_def sortByRoundDesc_def
  slice0_def nullish_def countsOf_def weights_def posteriorMean_def blockNumberAt_def
  renormalize_def readNum_def writeSlot_def jsum_def N_squares_def defaultOptions_def Let_def


text \<open>
  C3 does not hold of the code for every history. With the default options and a history
  whose latest record carries the index 25 (square 25 of a 1-based file), the penalty
  assignment appends \<open>NaN\<close> to the array: the result has 26 entries, each \<open>1/25\<close>,
  and their sum is \<open>26/25\<close>.
\<close>

theorem out_of_range_index_breaks_sum:
  "dirichletTimeDecayedPriors [\<lparr> round_no = 1, blockNumber = IntIdx 25 \<rparr>] defaultOptions
     = replicate 26 (Val (Fin (1 / 25)))
   \<and> jsum (present (dirichletTimeDecayedPriors
                       [\<lparr> round_no = 1, blockNumber = IntIdx 25 \<rparr>] defaultOptions))
     = Fin (26 / 25)"
  by (simp add: estimator_defs eval_nat_numeral)

text \<open>
  C8 does not hold of the code. The counting loop checks the range of an index, the
  penalty assignments check only that it is an integer. With the default options and
  the history of round 2 won by square 3 and round 1 carrying the index 30, the second
  penalty writes \<open>NaN\<close> at position 30: the array grows to 31 slots with five holes,
  the sum is \<open>NaN\<close>, and every present entry becomes \<open>1/25\<close>. Had the record of round 1
  kept its place and contributed nothing, the result would be the 25 entries computed
  from round 2 alone, with \<open>1/21\<close> for square 3 and \<open>5/126\<close> elsewhere.
\<close>

theorem out_of_range_index_corrupts:
  "dirichletTimeDecayedPriors
     [\<lparr> round_no = 2, blockNumber = IntIdx 3 \<rparr>, \<lparr> round_no = 1, blockNumber = IntIdx 30 \<rparr>]
     defaultOptions
   = replicate 25 (Val (Fin (1 / 25))) @ replicate 5 Hole @ [Val (Fin (1 / 25))]
   \<and> dirichletTimeDecayedPriors
     [\<lparr> round_no = 2, blockNumber = IntIdx 3 \<rparr>, \<lparr> round_no = 1, blockNumber = NotInt \<rparr>]
     defaultOptions
   = (replicate 25 (Val (Fin (5 / 126))))[3 := Val (Fin (1 / 21))]"
  by (simp add: estimator_defs eval_nat_numeral)

end
